theory Spec2Isabelle
  imports Main "HOL-Library.Sublist"
begin

section \<open>The program: the hash router of \<^verbatim>\<open>src/router.ts\<close>\<close>

text \<open>
  The router is one class with three private fields (\<^verbatim>\<open>_base\<close>, \<^verbatim>\<open>_lastPath\<close>,
  \<^verbatim>\<open>_routes\<close>). Its methods are embedded as functions that take the state of the instance
  and return the new state. The two functions imported from \<^verbatim>\<open>path-to-regexp\<close>
  (\<^verbatim>\<open>pathToRegexp\<close> and \<^verbatim>\<open>compile\<close>) belong to a library outside the repository: every
  function that calls one of them takes it as an argument, so each theorem holds for every
  behaviour of the library.
\<close>

subsection \<open>Values\<close>

text \<open>
  An element of the array returned by \<^verbatim>\<open>RegExp.prototype.exec\<close> is a string, or
  \<^verbatim>\<open>undefined\<close> for a group that took no part in the match; reading the array past its
  end gives \<^verbatim>\<open>undefined\<close> as well.
\<close>

datatype jsval = Str string | Undefined

text \<open>
  What the code can throw: the \<^verbatim>\<open>TypeError\<close> of calling \<^verbatim>\<open>route.handlers[i]\<close> when that
  element is \<^verbatim>\<open>undefined\<close> (the index is kept), and the errors of the library.
\<close>

datatype js_error = NotAFunction nat | PathToRegexpError string

text \<open>
  \<^verbatim>\<open>Parameters\<close> is a plain object \<^verbatim>\<open>{}\<close>, modelled by the map of its own properties:
  the keys it has are the domain of the map.
\<close>

type_synonym Parameters = "string \<rightharpoonup> jsval"

record Context =
  params :: Parameters

text \<open>
  \<^verbatim>\<open>Key\<close> of the library; the router reads only \<^verbatim>\<open>name\<close>. A numeric name (an unnamed
  group) is the property key given by its decimal digits.
\<close>

record Key =
  name :: string

text \<open>
  The \<^verbatim>\<open>RegExp\<close> built by \<^verbatim>\<open>pathToRegexp\<close> has neither the global nor the sticky flag,
  so it carries no state between calls: it is its \<^verbatim>\<open>exec\<close> function, \<open>None\<close> for
  \<^verbatim>\<open>null\<close>. By the language definition \<^verbatim>\<open>test\<close> is "\<^verbatim>\<open>exec\<close> is not \<^verbatim>\<open>null\<close>".
\<close>

record regexp =
  exec :: "string \<Rightarrow> jsval list option"

definition test :: "regexp \<Rightarrow> string \<Rightarrow> bool" where
  "test re url = (exec re url \<noteq> None)"

text \<open>
  A handler in a resolved sequence is either one of the functions the user passed to
  \<^verbatim>\<open>use\<close> (opaque, of type \<open>'h\<close>) or the closure that \<^verbatim>\<open>find\<close> creates. The closure
  captures \<^verbatim>\<open>this\<close> and \<^verbatim>\<open>route\<close> and reads only \<^verbatim>\<open>route.base\<close> of the latter, which is
  never assigned after the route is built: the closure is represented by that string.
\<close>

datatype 'h Handler = User 'h | Guard string

record 'h route =
  keys :: "Key list"
  pattern :: regexp
  handlers :: "'h Handler list"
  base :: string

record 'h router =
  router_base :: string
  lastPath :: "string option"
  routes :: "'h route list"

text \<open>The object returned by \<^verbatim>\<open>find\<close>.\<close>

record 'h resolution =
  res_params :: Parameters
  res_handlers :: "'h Handler list"

subsection \<open>Reading and writing JavaScript objects and arrays\<close>

text \<open>\<^verbatim>\<open>xs[i]\<close>: \<^verbatim>\<open>undefined\<close> out of range.\<close>

definition js_index :: "jsval list \<Rightarrow> nat \<Rightarrow> jsval" where
  "js_index xs i = (if i < length xs then xs ! i else Undefined)"

text \<open>
  \<^verbatim>\<open>obj[k] = v\<close> on an object created by \<^verbatim>\<open>{}\<close>, for a value \<open>v\<close> that is a string or
  \<^verbatim>\<open>undefined\<close>. Every key creates or overwrites an own property, but for \<^verbatim>\<open>__proto__\<close>:
  that name is an accessor of \<^verbatim>\<open>Object.prototype\<close>, whose setter returns without any change
  when the value is neither an object nor \<^verbatim>\<open>null\<close>.
\<close>

definition set_property :: "Parameters \<Rightarrow> string \<Rightarrow> jsval \<Rightarrow> Parameters" where
  "set_property obj k v = (if k = ''__proto__'' then obj else obj(k \<mapsto> v))"

subsection \<open>\<^verbatim>\<open>find\<close>\<close>

text \<open>
  The loop \<^verbatim>\<open>for (let i = 0; i < keys; ) params[route.keys[i].name] = matches[++i];\<close>
\<close>

function assign_keys :: "Key list \<Rightarrow> jsval list \<Rightarrow> nat \<Rightarrow> Parameters \<Rightarrow> Parameters" where
  "assign_keys ks matches i ps =
     (if i < length ks
      then assign_keys ks matches (Suc i) (set_property ps (name (ks ! i)) (js_index matches (Suc i)))
      else ps)"
  by pat_completeness auto
termination
  by (relation "measure (\<lambda>(ks, matches, i, ps). length ks - i)") auto

declare assign_keys.simps [simp del]

text \<open>
  The callback of \<^verbatim>\<open>this._routes.forEach\<close>, on the two local variables \<^verbatim>\<open>params\<close> and
  \<^verbatim>\<open>handlers\<close> of \<^verbatim>\<open>find\<close>.
\<close>

definition find_route :: "string \<Rightarrow> Parameters \<times> 'h Handler list \<Rightarrow> 'h route \<Rightarrow> Parameters \<times> 'h Handler list" where
  "find_route url acc rt =
     (case acc of (ps, hs) \<Rightarrow>
        if \<not> test (pattern rt) url then (ps, hs)
        else
          let hs1 = hs @ [Guard (base rt)];
              ps1 = (if length (keys rt) \<noteq> 0
                     then (case exec (pattern rt) url of
                             Some matches \<Rightarrow> assign_keys (keys rt) matches 0 ps
                           | None \<Rightarrow> ps)
                     else ps)
          in (ps1, hs1 @ handlers rt))"

text \<open>
  \<^verbatim>\<open>find\<close> returns the resolution and the state of the instance after the call.
\<close>

definition find :: "'h router \<Rightarrow> string \<Rightarrow> 'h resolution \<times> 'h router" where
  "find this url =
     (case foldl (find_route url) (Map.empty, []) (routes this) of
        (ps, hs) \<Rightarrow> (\<lparr>res_params = ps, res_handlers = hs\<rparr>, this))"

subsection \<open>Construction and registration\<close>

text \<open>\<^verbatim>\<open>new Router(base)\<close>; the default of \<^verbatim>\<open>base\<close> is \<^verbatim>\<open>"/"\<close>.\<close>

definition constructor :: "string \<Rightarrow> 'h router" where
  "constructor b = \<lparr>router_base = b, lastPath = None, routes = []\<rparr>"

text \<open>The method \<^verbatim>\<open>base(path)\<close> (the name \<open>base\<close> is the field of a route here).\<close>

definition set_base :: "'h router \<Rightarrow> string \<Rightarrow> 'h router" where
  "set_base this path = this\<lparr>router_base := path\<rparr>"

text \<open>
  \<^verbatim>\<open>String.prototype.split\<close> with a string separator and no limit: the text is cut at each
  occurrence of the separator, found from the left, the search resuming after the
  occurrence; an empty separator cuts between all characters.
\<close>

fun split_from :: "string \<Rightarrow> string \<Rightarrow> string \<Rightarrow> string list" where
  "split_from sep piece [] = [piece]"
| "split_from sep piece (c # cs) =
     (if sep \<noteq> [] \<and> prefix sep (c # cs)
      then piece # split_from sep [] (drop (length sep) (c # cs))
      else split_from sep (piece @ [c]) cs)"

definition js_split :: "string \<Rightarrow> string \<Rightarrow> string list" where
  "js_split sep s = (if sep = [] then map (\<lambda>c. [c]) s else split_from sep [] s)"

text \<open>
  \<^verbatim>\<open>use(path, ...handlers)\<close>. \<open>pathToRegexp\<close> stands for the library function: it gives
  the error it throws, or the expression together with the keys it pushed on the array
  \<^verbatim>\<open>keys\<close>. The result is the instance (\<^verbatim>\<open>return this\<close>) in its new state, and the lines
  written by \<^verbatim>\<open>console.error\<close>. No other statement of the method can throw.
\<close>

definition use ::
  "(string \<Rightarrow> js_error + regexp \<times> Key list) \<Rightarrow> 'h router \<Rightarrow> string \<Rightarrow> 'h Handler list \<Rightarrow>
   'h router \<times> string list" where
  "use pathToRegexp this path hs =
     (let fullPath = (if router_base this = ''/'' then path else router_base this @ path);
          b = hd (js_split ''(.*)'' fullPath)
      in case pathToRegexp fullPath of
           Inr (re, ks) \<Rightarrow>
             (this\<lparr>routes := routes this @ [\<lparr>keys = ks, pattern = re, handlers = hs, base = b\<rparr>]\<rparr>, [])
         | Inl err \<Rightarrow>
             (this, [''Route '' @ [CHR 0x27] @ path @ [CHR 0x27] @ '' is invalid.'']))"

subsection \<open>The closure created by \<^verbatim>\<open>find\<close>\<close>

text \<open>How a call ends: it returns, or it throws.\<close>

datatype outcome = Returned | Thrown js_error

text \<open>
  The closure \<^verbatim>\<open>(ctx, next) => { ... }\<close> of a route whose \<^verbatim>\<open>base\<close> is \<open>b\<close>. Both
  arguments are optional. \<open>compile\<close> stands for \<^verbatim>\<open>compile(template)(params)\<close> of the
  library, which throws on a template it cannot parse and on parameters that do not fit.
  \<^verbatim>\<open>next\<close> is any function of the program: it is given the state it is called in and
  gives the state it leaves and how it ended. The state is the instance, possibly
  together with more (\<open>'z\<close>) that \<^verbatim>\<open>next\<close> may change. The call of \<^verbatim>\<open>next\<close> is the last
  statement, so its outcome is the outcome of the closure.
\<close>

definition guard ::
  "(string \<Rightarrow> Parameters \<Rightarrow> js_error + string) \<Rightarrow> string \<Rightarrow> Context option \<Rightarrow>
   (('h, 'z) router_scheme \<Rightarrow> outcome \<times> ('h, 'z) router_scheme) option \<Rightarrow>
   ('h, 'z) router_scheme \<Rightarrow> outcome \<times> ('h, 'z) router_scheme" where
  "guard compile b ctx next this =
     (case ctx of
        None \<Rightarrow> (Returned, this)
      | Some c \<Rightarrow>
         (case next of
            None \<Rightarrow> (Returned, this)
          | Some k \<Rightarrow>
             (case compile b (params c) of
                Inl err \<Rightarrow> (Thrown err, this)
              | Inr path \<Rightarrow>
                  if lastPath this \<noteq> Some path
                  then k (this\<lparr>lastPath := Some path\<rparr>)
                  else (Returned, this))))"

text \<open>
  The guard applies its continuation to one state only, the one with the new
  last-resolved-path: the definition of the chain below needs this to terminate.
\<close>

lemma guard_cong [fundef_cong]:
  assumes "b = b'" "ctx = ctx'" "this = this'"
    and "\<And>c path. ctx' = Some c \<Longrightarrow> compile b' (params c) = Inr path \<Longrightarrow> lastPath this' \<noteq> Some path \<Longrightarrow>
           k (this'\<lparr>lastPath := Some path\<rparr>) = k' (this'\<lparr>lastPath := Some path\<rparr>)"
  shows "guard compile b ctx (Some k) this = guard compile b' ctx' (Some k') this'"
  using assms by (auto simp: guard_def split: option.splits sum.splits)

subsection \<open>\<^verbatim>\<open>handleRoutes\<close>\<close>

text \<open>
  The state of one dispatch: the instance, and the local variable \<^verbatim>\<open>next\<close> of
  \<^verbatim>\<open>handleRoutes\<close> that the closure \<^verbatim>\<open>handler\<close> increments.
\<close>

record 'h dispatch = "'h router" +
  cursor :: nat

text \<open>
  \<^verbatim>\<open>const handler = () => route.handlers[next++]({ params: route.params }, handler)\<close>.
  Calling an element that does not exist throws a \<^verbatim>\<open>TypeError\<close>, after the increment.
  The functions of the user are outside the program: \<open>invokes_next h ctx\<close> tells whether
  \<open>h\<close>, called with \<open>ctx\<close>, calls the continuation it is given. They are taken not to
  call back into the router, whose fields are private, and an exception passes through
  them.
\<close>

function handler ::
  "(string \<Rightarrow> Parameters \<Rightarrow> js_error + string) \<Rightarrow> ('h \<Rightarrow> Context \<Rightarrow> bool) \<Rightarrow>
   'h Handler list \<Rightarrow> Context \<Rightarrow> 'h dispatch \<Rightarrow> outcome \<times> 'h dispatch" where
  "handler compile invokes_next hs ctx s =
     (let i = cursor s; s1 = s\<lparr>cursor := Suc i\<rparr> in
      if i < length hs
      then (case hs ! i of
              Guard b \<Rightarrow> guard compile b (Some ctx) (Some (handler compile invokes_next hs ctx)) s1
            | User h \<Rightarrow>
                if invokes_next h ctx then handler compile invokes_next hs ctx s1
                else (Returned, s1))
      else (Thrown (NotAFunction i), s1))"
  by pat_completeness auto
termination
  by (relation "measure (\<lambda>(compile, invokes_next, hs, ctx, s). length hs - cursor s)") auto

declare handler.simps [simp del]

text \<open>
  \<^verbatim>\<open>String.prototype.replace\<close> with a string pattern: the first occurrence is replaced.
  The replacement is inserted as it is (it is \<^verbatim>\<open>"/"\<close> below, which has no \<^verbatim>\<open>$\<close>).
\<close>

fun js_replace :: "string \<Rightarrow> string \<Rightarrow> string \<Rightarrow> string" where
  "js_replace pat rep [] = (if pat = [] then rep else [])"
| "js_replace pat rep (c # cs) =
     (if prefix pat (c # cs) then rep @ drop (length pat) (c # cs)
      else c # js_replace pat rep cs)"

text \<open>\<^verbatim>\<open>const hash = location.hash.replace("#/", "/") || "/"\<close>: the empty string is falsy.\<close>

definition hash_url :: "string \<Rightarrow> string" where
  "hash_url h = (let r = js_replace ''#/'' ''/'' h in if r = [] then ''/'' else r)"

record location =
  pathname :: string
  hash :: string

record 'h dispatched =
  ended :: outcome
  router_after :: "'h router"
  href :: "string option"

text \<open>
  \<^verbatim>\<open>handleRoutes\<close> reads \<^verbatim>\<open>location\<close>, may assign \<^verbatim>\<open>location.href\<close> (the assigned text
  is given in \<open>href\<close>; the document stays as it is while the function runs), resolves the
  hash and starts the chain.
\<close>

definition handleRoutes ::
  "(string \<Rightarrow> Parameters \<Rightarrow> js_error + string) \<Rightarrow> ('h \<Rightarrow> Context \<Rightarrow> bool) \<Rightarrow>
   'h router \<Rightarrow> location \<Rightarrow> 'h dispatched" where
  "handleRoutes compile invokes_next this loc =
     (let assigned = (if pathname loc \<noteq> ''/'' then Some (''/#'' @ pathname loc) else None)
      in case find this (hash_url (hash loc)) of
           (route, this1) \<Rightarrow>
             if length (res_handlers route) = 0
             then \<lparr>ended = Returned, router_after = this1, href = assigned\<rparr>
             else
               (case handler compile invokes_next (res_handlers route) \<lparr>params = res_params route\<rparr>
                       \<lparr>router_base = router_base this1, lastPath = lastPath this1,
                        routes = routes this1, cursor = 0\<rparr> of
                  (out, s) \<Rightarrow>
                    \<lparr>ended = out,
                     router_after = \<lparr>router_base = router_base s, lastPath = lastPath s, routes = routes s\<rparr>,
                     href = assigned\<rparr>))"

subsection \<open>Predicates of the properties\<close>

text \<open>
  "Every handler invokes its continuation", along a chain that starts with the
  last-resolved-path \<open>lp\<close>: a function of the user does so when \<open>invokes_next\<close> says so,
  a guard when its template resolves to a path that differs from the last-resolved-path
  it finds, which is the path of the guard before it.
\<close>

fun every_handler_invokes_next ::
  "(string \<Rightarrow> Parameters \<Rightarrow> js_error + string) \<Rightarrow> ('h \<Rightarrow> Context \<Rightarrow> bool) \<Rightarrow>
   Context \<Rightarrow> 'h Handler list \<Rightarrow> string option \<Rightarrow> bool" where
  "every_handler_invokes_next compile invokes_next ctx [] lp = True"
| "every_handler_invokes_next compile invokes_next ctx (User h # hs) lp =
     (invokes_next h ctx \<and> every_handler_invokes_next compile invokes_next ctx hs lp)"
| "every_handler_invokes_next compile invokes_next ctx (Guard b # hs) lp =
     (case compile b (params ctx) of
        Inl err \<Rightarrow> False
      | Inr path \<Rightarrow>
          lp \<noteq> Some path \<and> every_handler_invokes_next compile invokes_next ctx hs (Some path))"

text \<open>
  The normalisation of the hash as the specification words it: the leading \<^verbatim>\<open>#\<close> is
  stripped, and the root path stands for an empty result.
\<close>

definition spec_hash_url :: "string \<Rightarrow> string" where
  "spec_hash_url h =
     (let s = (if prefix ''#'' h then drop 1 h else h) in if s = [] then ''/'' else s)"

subsection \<open>A concrete router\<close>

text \<open>
  The theorems below are stated for every behaviour of the library. To run them, the
  regular expressions that \<^verbatim>\<open>pathToRegexp\<close> builds (with its default options) for three
  shapes of template are written out as functions. A text is a list of 8-bit code units,
  and the templates are ASCII texts.

  The flag \<^verbatim>\<open>i\<close> makes the letters of the template match in both cases.
\<close>

definition ascii_lower :: "char \<Rightarrow> char" where
  "ascii_lower c =
     (case map_of (zip ''ABCDEFGHIJKLMNOPQRSTUVWXYZ'' ''abcdefghijklmnopqrstuvwxyz'') c of
        Some d \<Rightarrow> d
      | None \<Rightarrow> c)"

definition same_text :: "string \<Rightarrow> string \<Rightarrow> bool" where
  "same_text lit u = (map ascii_lower u = map ascii_lower lit)"

text \<open>The class \<^verbatim>\<open>[\/#\?]\<close> of the delimiters, and the line terminators, which \<^verbatim>\<open>.\<close> excludes.\<close>

definition delimiter :: "char \<Rightarrow> bool" where
  "delimiter c = (c \<in> set ''/#?'')"

definition line_terminator :: "char \<Rightarrow> bool" where
  "line_terminator c = (c = CHR 0x0A \<or> c = CHR 0x0D)"

text \<open>The end \<^verbatim>\<open>[\/#\?]?$\<close> of every expression allows one delimiter after the match.\<close>

definition strip_delimiter :: "string \<Rightarrow> string" where
  "strip_delimiter s = (if s \<noteq> [] \<and> delimiter (last s) then butlast s else s)"

text \<open>
  A template \<open>lit\<close> without a character of the template syntax:
  \<^verbatim>\<open>/^lit[\/#\?]?$/i\<close>, with no group.
\<close>

definition static_regexp :: "string \<Rightarrow> regexp" where
  "static_regexp lit =
     \<lparr>exec = (\<lambda>u. if same_text lit u \<or> (u \<noteq> [] \<and> delimiter (last u) \<and> same_text lit (butlast u))
                  then Some [Str u] else None)\<rparr>"

text \<open>
  A template \<open>lit\<close> followed by \<^verbatim>\<open>/:name\<close>: \<^verbatim>\<open>/^lit(?:\/([^\/#\?]+?))[\/#\?]?$/i\<close>. The
  group is the segment after the slash: it is not empty and holds no delimiter.
\<close>

definition segment_regexp :: "string \<Rightarrow> regexp" where
  "segment_regexp lit =
     \<lparr>exec = (\<lambda>u. case drop (length lit) u of
                    [] \<Rightarrow> None
                  | c # s \<Rightarrow>
                      let seg = strip_delimiter s
                      in if same_text lit (take (length lit) u) \<and> c = CHR ''/'' \<and>
                            seg \<noteq> [] \<and> \<not> list_ex delimiter seg
                         then Some [Str u, Str seg] else None)\<rparr>"

text \<open>
  A template \<open>lit\<close> followed by \<^verbatim>\<open>/(.*)\<close>: \<^verbatim>\<open>/^lit(?:\/(.*))[\/#\?]?$/i\<close>. The group is
  greedy: it is all that follows the slash, which must hold no line terminator.
\<close>

definition rest_regexp :: "string \<Rightarrow> regexp" where
  "rest_regexp lit =
     \<lparr>exec = (\<lambda>u. case drop (length lit) u of
                    [] \<Rightarrow> None
                  | c # s \<Rightarrow>
                      if same_text lit (take (length lit) u) \<and> c = CHR ''/'' \<and>
                         \<not> list_ex line_terminator s
                      then Some [Str u, Str s] else None)\<rparr>"

text \<open>Texts in which no character belongs to the syntax of templates.\<close>

definition literal_template :: "string \<Rightarrow> bool" where
  "literal_template t =
     list_all (\<lambda>c. c \<in> set ''abcdefghijklmnopqrstuvwxyzABCDEFGHIJKLMNOPQRSTUVWXYZ0123456789/-_.~[]'') t"

text \<open>
  The answers of \<^verbatim>\<open>pathToRegexp\<close>: on four templates with a parameter or a group, on
  \<^verbatim>\<open>/(\<close>, which the library rejects for its open parenthesis, and on the literal
  templates. Any other template is beyond this stand-in, and no property below reads its
  answer there.
\<close>

definition example_pathToRegexp :: "string \<Rightarrow> js_error + regexp \<times> Key list" where
  "example_pathToRegexp t =
     (if t = ''/users/:id'' then Inr (segment_regexp ''/users'', [\<lparr>name = ''id''\<rparr>])
      else if t = ''/:__proto__'' then Inr (segment_regexp [], [\<lparr>name = ''__proto__''\<rparr>])
      else if t = ''/(.*)'' then Inr (rest_regexp [], [\<lparr>name = ''0''\<rparr>])
      else if t = ''/api/files/(.*)'' then Inr (rest_regexp ''/api/files'', [\<lparr>name = ''0''\<rparr>])
      else if t = ''/('' then Inl (PathToRegexpError ''Unbalanced pattern at 1'')
      else if literal_template t then Inr (static_regexp t, [])
      else Inl (PathToRegexpError ''a template beyond this stand-in''))"

text \<open>
  The answers of \<^verbatim>\<open>compile\<close> on the bases of these routes. A parameter must be a
  string that its pattern matches. For \<^verbatim>\<open>/:__proto__\<close> the library reads
  \<^verbatim>\<open>params.__proto__\<close>, which is \<^verbatim>\<open>Object.prototype\<close> for the objects that \<^verbatim>\<open>find\<close>
  builds, and throws. A literal template compiles to itself.
\<close>

definition example_compile :: "string \<Rightarrow> Parameters \<Rightarrow> js_error + string" where
  "example_compile b ps =
     (if b = ''/users/:id''
      then (case ps ''id'' of
              Some (Str v) \<Rightarrow>
                if v \<noteq> [] \<and> \<not> list_ex delimiter v then Inr (''/users/'' @ v)
                else Inl (PathToRegexpError ''Expected id to match the pattern'')
            | _ \<Rightarrow> Inl (PathToRegexpError ''Expected id to be a string''))
      else if b = ''/:__proto__'' then Inl (PathToRegexpError ''Expected __proto__ to be a string'')
      else if literal_template b then Inr b
      else Inl (PathToRegexpError ''a template beyond this stand-in''))"

text \<open>
  \<^verbatim>\<open>new Router().use("/users/:id", h1, h2).use("/about", h3).use("/(.*)", h4)\<close>, the
  functions of the user being numbered.
\<close>

definition example_router :: "nat router" where
  "example_router =
     fst (use example_pathToRegexp
            (fst (use example_pathToRegexp
                    (fst (use example_pathToRegexp (constructor ''/'') ''/users/:id'' [User 1, User 2]))
                    ''/about'' [User 3]))
            ''/(.*)'' [User 4])"

text \<open>The same router without its last route.\<close>

definition two_routes :: "nat router" where
  "two_routes =
     fst (use example_pathToRegexp
            (fst (use example_pathToRegexp (constructor ''/'') ''/users/:id'' [User 1, User 2]))
            ''/about'' [User 3])"

text \<open>A continuation that counts its calls in the cursor of a dispatch.\<close>

definition tick :: "'h dispatch \<Rightarrow> outcome \<times> 'h dispatch" where
  "tick s = (Returned, s\<lparr>cursor := Suc (cursor s)\<rparr>)"

section \<open>Properties of the resolution\<close>

lemma find_route_handlers:
  "snd (find_route url (ps, hs) rt) =
     hs @ (if test (pattern rt) url then Guard (base rt) # handlers rt else [])"
  by (simp add: find_route_def Let_def)

lemma foldl_find_route_handlers:
  "snd (foldl (find_route url) (ps, hs) rs) =
     hs @ concat (map (\<lambda>rt. Guard (base rt) # handlers rt) (filter (\<lambda>rt. test (pattern rt) url) rs))"
proof (induction rs arbitrary: ps hs)
  case Nil
  show ?case by simp
next
  case (Cons rt rs)
  obtain ps' hs' where step: "find_route url (ps, hs) rt = (ps', hs')"
    by (cases "find_route url (ps, hs) rt")
  have hs': "hs' = hs @ (if test (pattern rt) url then Guard (base rt) # handlers rt else [])"
    using find_route_handlers [of url ps hs rt] step by simp
  show ?case
    using Cons.IH [of ps' hs'] by (simp add: step hs')
qed


lemma find_result:
  "fst (find this url) =
     \<lparr>res_params = fst (foldl (find_route url) (Map.empty, []) (routes this)),
      res_handlers = snd (foldl (find_route url) (Map.empty, []) (routes this))\<rparr>"
  by (simp add: find_def split: prod.splits)

lemma find_state: "snd (find this url) = this"
  by (simp add: find_def split: prod.splits)

lemma find_route_no_match:
  "\<not> test (pattern rt) url \<Longrightarrow> find_route url acc rt = acc"
  by (cases acc) (simp add: find_route_def)

lemma foldl_find_route_no_match:
  "\<forall>rt\<in>set rs. \<not> test (pattern rt) url \<Longrightarrow> foldl (find_route url) acc rs = acc"
  by (induction rs arbitrary: acc) (simp_all add: find_route_no_match)

text \<open>What the three kinds of expression give on the texts used below.\<close>

lemma exec_examples:
  "exec (segment_regexp ''/users'') ''/users/42'' = Some [Str ''/users/42'', Str ''42'']"
  "exec (static_regexp ''/about'') ''/users/42'' = None"
  "exec (rest_regexp []) ''/users/42'' = Some [Str ''/users/42'', Str ''users/42'']"
  "exec (segment_regexp ''/users'') ''/about'' = None"
  "exec (static_regexp ''/about'') ''/about'' = Some [Str ''/about'']"
  "exec (rest_regexp []) ''/about'' = Some [Str ''/about'', Str ''about'']"
  "exec (segment_regexp ''/users'') ''/nowhere'' = None"
  "exec (static_regexp ''/about'') ''/nowhere'' = None"
  "exec (rest_regexp []) ''/nowhere'' = Some [Str ''/nowhere'', Str ''nowhere'']"
  "exec (segment_regexp ''/users'') ''#nowhere'' = None"
  "exec (static_regexp ''/about'') ''#nowhere'' = None"
  "exec (rest_regexp []) ''#nowhere'' = None"
  "exec (segment_regexp []) ''/42'' = Some [Str ''/42'', Str ''42'']"
  by code_simp+

lemma literal_examples:
  "literal_template ''/about''" "literal_template ''/''" "literal_template ''/api/files/''"
  by code_simp+

text \<open>The routes of the concrete router, as \<^verbatim>\<open>use\<close> stores them.\<close>

lemma example_router_eq:
  "example_router =
     \<lparr>router_base = ''/'', lastPath = None,
      routes =
        [\<lparr>keys = [\<lparr>name = ''id''\<rparr>],
          pattern = segment_regexp ''/users'',
          handlers = [User 1, User 2], base = ''/users/:id''\<rparr>,
         \<lparr>keys = [], pattern = static_regexp ''/about'',
          handlers = [User 3], base = ''/about''\<rparr>,
         \<lparr>keys = [\<lparr>name = ''0''\<rparr>],
          pattern = rest_regexp [],
          handlers = [User 4], base = ''/''\<rparr>]\<rparr>"
  by (simp add: example_router_def use_def constructor_def example_pathToRegexp_def js_split_def Let_def
        literal_examples)

lemma two_routes_eq:
  "two_routes =
     \<lparr>router_base = ''/'', lastPath = None,
      routes =
        [\<lparr>keys = [\<lparr>name = ''id''\<rparr>],
          pattern = segment_regexp ''/users'',
          handlers = [User 1, User 2], base = ''/users/:id''\<rparr>,
         \<lparr>keys = [], pattern = static_regexp ''/about'',
          handlers = [User 3], base = ''/about''\<rparr>]\<rparr>"
  by (simp add: two_routes_def use_def constructor_def example_pathToRegexp_def js_split_def Let_def
        literal_examples)

text \<open>
  \<^bold>\<open>C1.\<close> For every url and every route table, the handlers that \<^verbatim>\<open>find\<close> returns are
  the concatenation, over the routes whose expression matches the url, in the order of
  the table, of one guard followed by the handlers of the route in the order they were
  given to \<^verbatim>\<open>use\<close>. A route that does not match contributes nothing, and the whole table
  is scanned whatever matched before.
\<close>

theorem find_handlers:
  "res_handlers (fst (find this url)) =
     concat (map (\<lambda>rt. Guard (base rt) # handlers rt)
                 (filter (\<lambda>rt. test (pattern rt) url) (routes this)))"
  using foldl_find_route_handlers [of url Map.empty "[]" "routes this"]
  by (simp add: find_result)

theorem find_handlers_witness:
  "res_handlers (fst (find example_router ''/users/42'')) =
     [Guard ''/users/:id'', User 1, User 2, Guard ''/'', User 4]"
  using find_handlers [of example_router "''/users/42''"]
  by (simp add: example_router_eq test_def exec_examples)

text \<open>
  \<^bold>\<open>C6.\<close> For a url that no registered route matches, \<^verbatim>\<open>find\<close> returns the object with
  an empty parameter map and an empty handler sequence. (\<^verbatim>\<open>find\<close> is a total function:
  there is no absent result.)
\<close>

theorem find_no_match:
  assumes "\<forall>rt\<in>set (routes this). \<not> test (pattern rt) url"
  shows "fst (find this url) = \<lparr>res_params = Map.empty, res_handlers = []\<rparr>"
  by (simp add: find_result foldl_find_route_no_match [OF assms])

theorem find_no_match_witness:
  "fst (find example_router ''#nowhere'') = \<lparr>res_params = Map.empty, res_handlers = []\<rparr> \<and>
   fst (find two_routes ''/nowhere'') = \<lparr>res_params = Map.empty, res_handlers = []\<rparr>"
proof -
  have none: "\<forall>rt\<in>set (routes example_router). \<not> test (pattern rt) ''#nowhere''"
    by (simp add: example_router_eq test_def exec_examples)
  have none': "\<forall>rt\<in>set (routes two_routes). \<not> test (pattern rt) ''/nowhere''"
    by (simp add: two_routes_eq test_def exec_examples)
  show ?thesis
    using find_no_match [OF none] find_no_match [OF none'] by (rule conjI)
qed


subsection \<open>The parameter map\<close>

lemma assign_keys_foldl:
  "assign_keys ks matches i ps =
     foldl (\<lambda>m j. set_property m (name (ks ! j)) (js_index matches (Suc j))) ps [i..<length ks]"
proof (induction ks matches i ps rule: assign_keys.induct)
  case (1 ks matches i ps)
  show ?case
  proof (cases "i < length ks")
    case True
    then show ?thesis
      using "1.IH" by (subst assign_keys.simps) (simp add: upt_conv_Cons)
  next
    case False
    then show ?thesis by (subst assign_keys.simps) simp
  qed
qed

lemma assign_keys_Nil [simp]: "assign_keys [] matches i ps = ps"
  by (subst assign_keys.simps) simp

lemma assign_keys_proto:
  "assign_keys ks matches i ps ''__proto__'' = ps ''__proto__''"
proof (induction ks matches i ps rule: assign_keys.induct)
  case (1 ks matches i ps)
  show ?case
  proof (cases "i < length ks")
    case True
    then show ?thesis
      using "1.IH" by (subst assign_keys.simps) (simp add: set_property_def)
  next
    case False
    then show ?thesis by (subst assign_keys.simps) simp
  qed
qed

lemma assign_keys_other:
  "\<forall>j. i \<le> j \<and> j < length ks \<longrightarrow> name (ks ! j) \<noteq> k \<Longrightarrow> assign_keys ks matches i ps k = ps k"
proof (induction ks matches i ps rule: assign_keys.induct)
  case (1 ks matches i ps)
  show ?case
  proof (cases "i < length ks")
    case True
    have "assign_keys ks matches (Suc i) (set_property ps (name (ks ! i)) (js_index matches (Suc i))) k
          = set_property ps (name (ks ! i)) (js_index matches (Suc i)) k"
      using "1.IH" [OF True] "1.prems" by simp
    moreover have "name (ks ! i) \<noteq> k"
      using "1.prems" True by simp
    ultimately show ?thesis
      using True by (subst assign_keys.simps) (simp add: set_property_def)
  next
    case False
    then show ?thesis by (subst assign_keys.simps) simp
  qed
qed

lemma assign_keys_last:
  assumes "k \<noteq> ''__proto__''" "i \<le> j" "j < length ks" "name (ks ! j) = k"
    and "\<forall>j'. j < j' \<and> j' < length ks \<longrightarrow> name (ks ! j') \<noteq> k"
  shows "assign_keys ks matches i ps k = Some (js_index matches (Suc j))"
  using assms
proof (induction ks matches i ps rule: assign_keys.induct)
  case (1 ks matches i ps)
  have lt: "i < length ks" using "1.prems" by simp
  show ?case
  proof (cases "i = j")
    case True
    have "assign_keys ks matches (Suc i) (set_property ps (name (ks ! i)) (js_index matches (Suc i))) k
          = set_property ps (name (ks ! i)) (js_index matches (Suc i)) k"
      using "1.prems" True by (intro assign_keys_other) simp
    then show ?thesis
      using lt True "1.prems" by (subst assign_keys.simps) (simp add: set_property_def)
  next
    case False
    then have "Suc i \<le> j" using "1.prems" by simp
    then show ?thesis
      using "1.IH" [OF lt] "1.prems" lt by (subst assign_keys.simps) simp
  qed
qed

lemma find_route_params:
  "fst (find_route url (ps, hs) rt) =
     (case exec (pattern rt) url of
        Some matches \<Rightarrow> assign_keys (keys rt) matches 0 ps
      | None \<Rightarrow> ps)"
  by (auto simp: find_route_def test_def Let_def split: option.splits)

lemma foldl_find_route_params_other:
  assumes "\<forall>rt\<in>set rs. test (pattern rt) url \<longrightarrow> k \<notin> name ` set (keys rt)"
  shows "fst (foldl (find_route url) (ps, hs) rs) k = ps k"
  using assms
proof (induction rs arbitrary: ps hs)
  case Nil
  show ?case by simp
next
  case (Cons rt rs)
  obtain ps' hs' where step: "find_route url (ps, hs) rt = (ps', hs')"
    by (cases "find_route url (ps, hs) rt")
  have "ps' k = ps k"
  proof (cases "exec (pattern rt) url")
    case None
    then show ?thesis using find_route_params [of url ps hs rt] step by simp
  next
    case (Some matches)
    then have "k \<notin> name ` set (keys rt)"
      using Cons.prems by (simp add: test_def)
    then have "\<forall>j. 0 \<le> j \<and> j < length (keys rt) \<longrightarrow> name (keys rt ! j) \<noteq> k"
      by (metis image_eqI nth_mem)
    then have "assign_keys (keys rt) matches 0 ps k = ps k"
      by (rule assign_keys_other)
    then show ?thesis using find_route_params [of url ps hs rt] step Some by simp
  qed
  moreover have "fst (foldl (find_route url) (ps', hs') rs) k = ps' k"
    using Cons.IH [of ps' hs'] Cons.prems by simp
  ultimately show ?case by (simp add: step)
qed

lemma foldl_find_route_params_proto:
  "fst (foldl (find_route url) (ps, hs) rs) ''__proto__'' = ps ''__proto__''"
proof (induction rs arbitrary: ps hs)
  case Nil
  show ?case by simp
next
  case (Cons rt rs)
  obtain ps' hs' where step: "find_route url (ps, hs) rt = (ps', hs')"
    by (cases "find_route url (ps, hs) rt")
  have "ps' ''__proto__'' = ps ''__proto__''"
    using find_route_params [of url ps hs rt] step
    by (simp add: assign_keys_proto split: option.splits)
  then show ?case
    using Cons.IH [of ps' hs'] by (simp add: step)
qed

text \<open>
  In the parameters that \<^verbatim>\<open>find\<close> returns, a key other than \<^verbatim>\<open>__proto__\<close> holds the
  capture group of its last writer: the last key of that name in the last matching route
  that declares it.
\<close>

lemma find_params_last_writer:
  assumes table: "routes this = rs1 @ rt # rs2"
    and matches: "exec (pattern rt) url = Some matches"
    and key: "j < length (keys rt)" "name (keys rt ! j) = k"
    and last_key: "\<forall>j'. j < j' \<and> j' < length (keys rt) \<longrightarrow> name (keys rt ! j') \<noteq> k"
    and later: "\<forall>rt'\<in>set rs2. test (pattern rt') url \<longrightarrow> k \<notin> name ` set (keys rt')"
    and ordinary: "k \<noteq> ''__proto__''"
  shows "res_params (fst (find this url)) k = Some (js_index matches (Suc j))"
proof -
  obtain ps1 hs1 where before: "foldl (find_route url) (Map.empty, []) rs1 = (ps1, hs1)"
    by (cases "foldl (find_route url) (Map.empty, []) rs1")
  obtain ps2 hs2 where step: "find_route url (ps1, hs1) rt = (ps2, hs2)"
    by (cases "find_route url (ps1, hs1) rt")
  have "ps2 = assign_keys (keys rt) matches 0 ps1"
    using find_route_params [of url ps1 hs1 rt] step matches by simp
  then have "ps2 k = Some (js_index matches (Suc j))"
    using assign_keys_last [OF ordinary _ key(1) key(2) last_key, of 0 matches ps1] by simp
  moreover have "fst (foldl (find_route url) (ps2, hs2) rs2) k = ps2 k"
    using later by (rule foldl_find_route_params_other)
  ultimately show ?thesis
    by (simp add: find_result table before step)
qed

text \<open>The assignment to \<^verbatim>\<open>__proto__\<close> never creates a property.\<close>

lemma find_params_proto_absent:
  "res_params (fst (find this url)) ''__proto__'' = None"
  by (simp add: find_result foldl_find_route_params_proto)

text \<open>
  \<^bold>\<open>C4.\<close> Each matching route that declares keys writes, for each key, the capture group
  of the url, and the later route wins for a name declared twice. The code does so for
  every name but \<^verbatim>\<open>__proto__\<close> (\<open>find_params_last_writer\<close>). After
  \<^verbatim>\<open>new Router().use("/:__proto__", h)\<close>, the route matches \<^verbatim>\<open>/42\<close>, declares the key and
  captures \<^verbatim>\<open>42\<close>, and the parameters of \<^verbatim>\<open>find("/42")\<close> are empty.
\<close>

theorem find_params_proto_key:
  "keys (hd (routes (fst (use example_pathToRegexp (constructor ''/'') ''/:__proto__'' [User (1::nat)]))))
     = [\<lparr>name = ''__proto__''\<rparr>] \<and>
   exec (pattern (hd (routes (fst (use example_pathToRegexp (constructor ''/'') ''/:__proto__'' [User (1::nat)])))))
     ''/42'' = Some [Str ''/42'', Str ''42''] \<and>
   res_params (fst (find (fst (use example_pathToRegexp (constructor ''/'') ''/:__proto__'' [User (1::nat)]))
                      ''/42'')) = Map.empty"
  by (simp add: use_def constructor_def example_pathToRegexp_def exec_examples Let_def
        find_result find_route_def test_def assign_keys_foldl set_property_def)

subsection \<open>The guard\<close>

lemma guard_Some:
  "guard compile b (Some ctx) (Some k) this =
     (case compile b (params ctx) of
        Inl err \<Rightarrow> (Thrown err, this)
      | Inr path \<Rightarrow>
          if lastPath this \<noteq> Some path then k (this\<lparr>lastPath := Some path\<rparr>) else (Returned, this))"
  by (simp add: guard_def)

text \<open>
  \<^bold>\<open>C2.\<close> A guard called with a context and a continuation resolves the base of its
  route with the parameters of the context. The resolution does not always give a path:
  the guard that \<^verbatim>\<open>find\<close> creates for \<^verbatim>\<open>/users/:id\<close>, called with a context without
  \<^verbatim>\<open>id\<close>, throws the error of the library. The last-resolved-path, which is \<^verbatim>\<open>null\<close>,
  differs from every path, and yet the continuation is not called.
\<close>

theorem guard_throws:
  "Guard ''/users/:id'' \<in> set (res_handlers (fst (find example_router ''/users/42''))) \<and>
   example_compile ''/users/:id'' (params \<lparr>params = Map.empty\<rparr>) =
     Inl (PathToRegexpError ''Expected id to be a string'') \<and>
   guard example_compile ''/users/:id'' (Some \<lparr>params = Map.empty\<rparr>) (Some tick)
     \<lparr>router_base = ''/'', lastPath = None, routes = ([] :: nat route list), cursor = 0\<rparr> =
   (Thrown (PathToRegexpError ''Expected id to be a string''),
    \<lparr>router_base = ''/'', lastPath = None, routes = [], cursor = 0\<rparr>)"
proof -
  have "res_handlers (fst (find example_router ''/users/42'')) =
      concat (map (\<lambda>rt. Guard (base rt) # handlers rt)
                  (filter (\<lambda>rt. test (pattern rt) ''/users/42'') (routes example_router)))"
    using foldl_find_route_handlers [of "''/users/42''" Map.empty "[]" "routes example_router"]
    by (simp add: find_result)
  then have created: "Guard ''/users/:id'' \<in> set (res_handlers (fst (find example_router ''/users/42'')))"
    by (simp add: example_router_eq test_def exec_examples)
  have thrown: "example_compile ''/users/:id'' (params \<lparr>params = Map.empty\<rparr>) =
      Inl (PathToRegexpError ''Expected id to be a string'')"
    by (simp add: example_compile_def)
  show ?thesis
    using created thrown by (simp add: guard_def)
qed

text \<open>
  What holds for every guard, context and continuation. When the resolution throws, the
  guard throws the same error: nothing is called and nothing changes. When it gives a
  path that differs from the last-resolved-path, the guard stores the path and calls the
  continuation, once: what the guard does is what one call of the continuation does in
  the updated state. When it gives the last-resolved-path, the guard returns: nothing is
  called and nothing changes.
\<close>

theorem guard_outcomes:
  "(compile b (params ctx) = Inl err \<longrightarrow>
      guard compile b (Some ctx) (Some next) this = (Thrown err, this)) \<and>
   (compile b (params ctx) = Inr path \<and> lastPath this \<noteq> Some path \<longrightarrow>
      guard compile b (Some ctx) (Some next) this = next (this\<lparr>lastPath := Some path\<rparr>)) \<and>
   (compile b (params ctx) = Inr path \<and> lastPath this = Some path \<longrightarrow>
      guard compile b (Some ctx) (Some next) this = (Returned, this))"
  by (simp add: guard_def)

theorem guard_outcomes_witness:
  "guard example_compile ''/users/:id'' (Some \<lparr>params = Map.empty\<rparr>) (Some tick)
     \<lparr>router_base = ''/'', lastPath = None, routes = ([] :: nat route list), cursor = 0\<rparr> =
   (Thrown (PathToRegexpError ''Expected id to be a string''),
    \<lparr>router_base = ''/'', lastPath = None, routes = [], cursor = 0\<rparr>) \<and>
   guard example_compile ''/users/:id'' (Some \<lparr>params = [''id'' \<mapsto> Str ''42'']\<rparr>) (Some tick)
     \<lparr>router_base = ''/'', lastPath = None, routes = ([] :: nat route list), cursor = 0\<rparr> =
   (Returned,
    \<lparr>router_base = ''/'', lastPath = Some ''/users/42'', routes = [], cursor = 1\<rparr>) \<and>
   guard example_compile ''/users/:id'' (Some \<lparr>params = [''id'' \<mapsto> Str ''42'']\<rparr>) (Some tick)
     \<lparr>router_base = ''/'', lastPath = Some ''/users/42'', routes = ([] :: nat route list), cursor = 0\<rparr> =
   (Returned,
    \<lparr>router_base = ''/'', lastPath = Some ''/users/42'', routes = [], cursor = 0\<rparr>)"
proof -
  let ?fresh = "\<lparr>router_base = ''/'', lastPath = None, routes = ([] :: nat route list), cursor = 0\<rparr>"
  let ?seen = "\<lparr>router_base = ''/'', lastPath = Some ''/users/42'', routes = ([] :: nat route list), cursor = 0\<rparr>"
  let ?none = "\<lparr>params = Map.empty\<rparr>"
  let ?id = "\<lparr>params = [''id'' \<mapsto> Str ''42'']\<rparr>"
  have thrown: "example_compile ''/users/:id'' (params ?none) = Inl (PathToRegexpError ''Expected id to be a string'')"
    by (simp add: example_compile_def)
  have path: "example_compile ''/users/:id'' (params ?id) = Inr ''/users/42''"
    by (simp add: example_compile_def delimiter_def)
  have first: "guard example_compile ''/users/:id'' (Some ?none) (Some tick) ?fresh =
      (Thrown (PathToRegexpError ''Expected id to be a string''), ?fresh)"
    using guard_outcomes [where compile = example_compile and b = "''/users/:id''" and ctx = ?none
        and err = "PathToRegexpError ''Expected id to be a string''" and ?next = tick and this = ?fresh]
      thrown
    by blast
  have "guard example_compile ''/users/:id'' (Some ?id) (Some tick) ?fresh =
      tick (?fresh\<lparr>lastPath := Some ''/users/42''\<rparr>)"
    using guard_outcomes [where compile = example_compile and b = "''/users/:id''" and ctx = ?id
        and path = "''/users/42''" and ?next = tick and this = ?fresh]
      path
    by simp
  then have second: "guard example_compile ''/users/:id'' (Some ?id) (Some tick) ?fresh =
      (Returned, \<lparr>router_base = ''/'', lastPath = Some ''/users/42'', routes = [], cursor = 1\<rparr>)"
    by (simp add: tick_def)
  have third: "guard example_compile ''/users/:id'' (Some ?id) (Some tick) ?seen = (Returned, ?seen)"
    using guard_outcomes [where compile = example_compile and b = "''/users/:id''" and ctx = ?id
        and path = "''/users/42''" and ?next = tick and this = ?seen]
      path
    by simp
  show ?thesis
    using first second third by blast
qed

text \<open>
  \<^bold>\<open>C3.\<close> Two calls in succession of a guard, with contexts that resolve to the same
  path, the last-resolved-path being another one before the first call and left as the
  first call set it until the second: the first call calls its continuation, the second
  returns without calling its own.
\<close>

theorem guard_twice:
  assumes "compile b (params ctx1) = Inr path" and "compile b (params ctx2) = Inr path"
    and "lastPath this \<noteq> Some path"
    and "next1 (this\<lparr>lastPath := Some path\<rparr>) = (out, this')"
    and "lastPath this' = Some path"
  shows "guard compile b (Some ctx1) (Some next1) this = next1 (this\<lparr>lastPath := Some path\<rparr>) \<and>
         guard compile b (Some ctx2) (Some next2) (snd (guard compile b (Some ctx1) (Some next1) this)) =
           (Returned, this')"
  using assms by (simp add: guard_def)

theorem guard_twice_witness:
  "guard example_compile ''/about'' (Some \<lparr>params = Map.empty\<rparr>) (Some tick)
     (snd (guard example_compile ''/about'' (Some \<lparr>params = Map.empty\<rparr>) (Some tick)
        \<lparr>router_base = ''/'', lastPath = Some ''/users/42'', routes = ([] :: nat route list), cursor = 0\<rparr>)) =
   (Returned, \<lparr>router_base = ''/'', lastPath = Some ''/about'', routes = [], cursor = 1\<rparr>)"
proof -
  let ?s0 = "\<lparr>router_base = ''/'', lastPath = Some ''/users/42'', routes = ([] :: nat route list), cursor = 0\<rparr>"
  let ?s1 = "\<lparr>router_base = ''/'', lastPath = Some ''/about'', routes = ([] :: nat route list), cursor = 1\<rparr>"
  have path: "example_compile ''/about'' (params \<lparr>params = Map.empty\<rparr>) = Inr ''/about''"
    by (simp add: example_compile_def literal_examples)
  have differs: "lastPath ?s0 \<noteq> Some ''/about''"
    by simp
  have first: "tick (?s0\<lparr>lastPath := Some ''/about''\<rparr>) = (Returned, ?s1)"
    by (simp add: tick_def)
  have kept: "lastPath ?s1 = Some ''/about''"
    by simp
  show ?thesis
    using guard_twice [where compile = example_compile and b = "''/about''"
        and ?ctx1.0 = "\<lparr>params = Map.empty\<rparr>" and ?ctx2.0 = "\<lparr>params = Map.empty\<rparr>"
        and path = "''/about''" and ?next1.0 = tick and ?next2.0 = tick and this = ?s0
        and out = Returned and this' = ?s1, OF path path differs first kept]
    by (rule conjunct2)
qed

subsection \<open>The chain\<close>

lemma handler_off_end:
  "cursor s \<le> length hs \<Longrightarrow>
   (fst (handler compile invokes_next hs ctx s) = Thrown (NotAFunction (length hs)) \<and>
    cursor (snd (handler compile invokes_next hs ctx s)) = Suc (length hs))
   = every_handler_invokes_next compile invokes_next ctx (drop (cursor s) hs) (lastPath s)"
proof (induction compile invokes_next hs ctx s rule: handler.induct)
  case (1 compile invokes_next hs ctx s)
  show ?case
  proof (cases "cursor s < length hs")
    case False
    then have "cursor s = length hs" using "1.prems" by simp
    then show ?thesis
      by (subst (1 2) handler.simps) (simp add: Let_def)
  next
    case True
    then have ne: "cursor s \<noteq> length hs" by simp
    from True have dr: "drop (cursor s) hs = hs ! cursor s # drop (Suc (cursor s)) hs"
      by (simp add: Cons_nth_drop_Suc)
    show ?thesis
    proof (cases "hs ! cursor s")
      case (User h)
      show ?thesis
      proof (cases "invokes_next h ctx")
        case inv: True
        have step: "handler compile invokes_next hs ctx s
            = handler compile invokes_next hs ctx (s\<lparr>cursor := Suc (cursor s)\<rparr>)"
          using True User inv by (subst handler.simps) (simp add: Let_def)
        show ?thesis
          using "1.IH"(1) [OF refl refl True User inv] True
          by (simp add: step dr User inv)
      next
        case ninv: False
        have step: "handler compile invokes_next hs ctx s = (Returned, s\<lparr>cursor := Suc (cursor s)\<rparr>)"
          using True User ninv by (subst handler.simps) (simp add: Let_def)
        show ?thesis
          using ne by (simp add: step dr User ninv)
      qed
    next
      case (Guard b)
      have step: "handler compile invokes_next hs ctx s
            = guard compile b (Some ctx) (Some (handler compile invokes_next hs ctx)) (s\<lparr>cursor := Suc (cursor s)\<rparr>)"
        using True Guard by (subst handler.simps) (simp add: Let_def)
      show ?thesis
      proof (cases "compile b (params ctx)")
        case (Inl err)
        then show ?thesis
          using ne by (simp add: step guard_Some dr Guard Inl)
      next
        case (Inr path)
        show ?thesis
        proof (cases "lastPath s = Some path")
          case same: True
          then show ?thesis
            using ne by (simp add: step guard_Some dr Guard Inr)
        next
          case diff: False
          then show ?thesis
            using "1.IH"(2) [OF refl refl True Guard refl Inr] True
            by (simp add: step guard_Some dr Guard Inr)
        qed
      qed
    qed
  qed
qed

lemma handler_frame:
  "routes (snd (handler compile invokes_next hs ctx s)) = routes s \<and>
   router_base (snd (handler compile invokes_next hs ctx s)) = router_base s"
proof (induction compile invokes_next hs ctx s rule: handler.induct)
  case (1 compile invokes_next hs ctx s)
  show ?case
  proof (cases "cursor s < length hs")
    case False
    then show ?thesis
      by (subst (1 2) handler.simps) (simp add: Let_def)
  next
    case True
    show ?thesis
    proof (cases "hs ! cursor s")
      case (User h)
      then show ?thesis
        using "1.IH"(1) [OF refl refl True User] True
        by (subst (1 2) handler.simps) (simp add: Let_def)
    next
      case (Guard b)
      then show ?thesis
        using "1.IH"(2) [OF refl refl True Guard refl] True
        by (subst (1 2) handler.simps) (auto simp: Let_def guard_Some split: sum.splits)
    qed
  qed
qed

text \<open>
  Whatever the chain does, the last-resolved-path it leaves is the one it found, or the
  path that a guard of the sequence resolved.
\<close>

lemma handler_lastPath:
  "lastPath (snd (handler compile invokes_next hs ctx s)) = lastPath s \<or>
   (\<exists>b path. Guard b \<in> set hs \<and> compile b (params ctx) = Inr path \<and>
      lastPath (snd (handler compile invokes_next hs ctx s)) = Some path)"
proof (induction compile invokes_next hs ctx s rule: handler.induct)
  case (1 compile invokes_next hs ctx s)
  show ?case
  proof (cases "cursor s < length hs")
    case False
    then show ?thesis
      by (subst (1 2) handler.simps) (simp add: Let_def)
  next
    case True
    show ?thesis
    proof (cases "hs ! cursor s")
      case (User h)
      show ?thesis
      proof (cases "invokes_next h ctx")
        case inv: True
        have step: "handler compile invokes_next hs ctx s
            = handler compile invokes_next hs ctx (s\<lparr>cursor := Suc (cursor s)\<rparr>)"
          using True User inv by (subst handler.simps) (simp add: Let_def)
        show ?thesis
          using "1.IH"(1) [OF refl refl True User inv] by (simp add: step)
      next
        case ninv: False
        have step: "handler compile invokes_next hs ctx s = (Returned, s\<lparr>cursor := Suc (cursor s)\<rparr>)"
          using True User ninv by (subst handler.simps) (simp add: Let_def)
        show ?thesis
          by (simp add: step)
      qed
    next
      case (Guard b)
      have mem: "Guard b \<in> set hs"
        using True Guard by (metis nth_mem)
      have step: "handler compile invokes_next hs ctx s
            = guard compile b (Some ctx) (Some (handler compile invokes_next hs ctx)) (s\<lparr>cursor := Suc (cursor s)\<rparr>)"
        using True Guard by (subst handler.simps) (simp add: Let_def)
      show ?thesis
      proof (cases "compile b (params ctx)")
        case (Inl err)
        then show ?thesis
          by (simp add: step guard_Some)
      next
        case (Inr path)
        show ?thesis
        proof (cases "lastPath s = Some path")
          case same: True
          then show ?thesis
            by (simp add: step guard_Some Inr)
        next
          case diff: False
          have run: "handler compile invokes_next hs ctx s
              = handler compile invokes_next hs ctx (s\<lparr>cursor := Suc (cursor s), lastPath := Some path\<rparr>)"
            using diff by (simp add: step guard_Some Inr)
          show ?thesis
            using "1.IH"(2) [OF refl refl True Guard refl Inr] diff mem Inr
            unfolding run by auto
        qed
      qed
    qed
  qed
qed

text \<open>
  \<^bold>\<open>C9.\<close> \<^verbatim>\<open>find\<close> leaves the instance as it was: the routes and their order, the base
  and the last-resolved-path. Neither \<^verbatim>\<open>use\<close> nor \<^verbatim>\<open>base\<close> writes the
  last-resolved-path, and a chain of handlers leaves it as it found it or at the path
  resolved by a guard of the chain.
\<close>

theorem find_frame:
  "snd (find this url) = this \<and>
   lastPath (fst (use pathToRegexp this path hs)) = lastPath this \<and>
   lastPath (set_base this path') = lastPath this \<and>
   (lastPath (snd (handler compile invokes_next chain ctx s)) = lastPath s \<or>
    (\<exists>b resolved. Guard b \<in> set chain \<and> compile b (params ctx) = Inr resolved \<and>
       lastPath (snd (handler compile invokes_next chain ctx s)) = Some resolved))"
  using handler_lastPath [of compile invokes_next chain ctx s]
  by (simp add: find_state use_def set_base_def Let_def split: sum.splits)

theorem find_frame_witness:
  "snd (find example_router ''/users/42'') = example_router \<and>
   lastPath (snd (handler example_compile (\<lambda>h ctx. True) [User (1::nat), User 2] \<lparr>params = Map.empty\<rparr>
      \<lparr>router_base = ''/'', lastPath = Some ''/about'', routes = [], cursor = 0\<rparr>)) = Some ''/about''"
  using find_frame [where this = example_router and url = "''/users/42''" and compile = example_compile
          and invokes_next = "\<lambda>h ctx. True" and chain = "[User (1::nat), User 2]"
          and ctx = "\<lparr>params = Map.empty\<rparr>"
          and s = "\<lparr>router_base = ''/'', lastPath = Some ''/about'', routes = [], cursor = 0\<rparr>"]
  by simp

text \<open>
  \<^bold>\<open>C10.\<close> The loop of \<^verbatim>\<open>handleRoutes\<close> has no last step of its own and does not check
  its index. When the resolved sequence is not empty and every one of its \<open>n\<close> handlers
  calls its continuation, the loop reads the element of index \<open>n\<close>, which does not
  exist, and calling it throws: the dispatch does not return.
\<close>

theorem dispatch_off_the_end:
  assumes "res_handlers (fst (find this (hash_url (hash loc)))) \<noteq> []"
    and "every_handler_invokes_next compile invokes_next
           \<lparr>params = res_params (fst (find this (hash_url (hash loc))))\<rparr>
           (res_handlers (fst (find this (hash_url (hash loc))))) (lastPath this)"
  shows "ended (handleRoutes compile invokes_next this loc) =
           Thrown (NotAFunction (length (res_handlers (fst (find this (hash_url (hash loc)))))))"
proof -
  obtain route this1 where f: "find this (hash_url (hash loc)) = (route, this1)"
    by (cases "find this (hash_url (hash loc))")
  have this1: "this1 = this"
    using f by (simp add: find_def split: prod.splits)
  let ?s = "\<lparr>router_base = router_base this, lastPath = lastPath this, routes = routes this, cursor = 0\<rparr>"
  have "every_handler_invokes_next compile invokes_next \<lparr>params = res_params route\<rparr>
          (drop (cursor ?s) (res_handlers route)) (lastPath ?s)"
    using assms(2) f by simp
  then have "fst (handler compile invokes_next (res_handlers route) \<lparr>params = res_params route\<rparr> ?s)
      = Thrown (NotAFunction (length (res_handlers route)))"
    using handler_off_end [of ?s "res_handlers route" compile invokes_next "\<lparr>params = res_params route\<rparr>"]
    by simp
  then show ?thesis
    using assms(1) f this1 by (auto simp: handleRoutes_def split: prod.splits)
qed

lemma example_find_about:
  "fst (find example_router (hash_url ''#/about'')) =
     \<lparr>res_params = [''0'' \<mapsto> Str ''about''],
      res_handlers = [Guard ''/about'', User 3, Guard ''/'', User 4]\<rparr>"
  by (simp add: hash_url_def find_result example_router_eq find_route_def test_def
        exec_examples assign_keys_foldl set_property_def js_index_def Let_def)

theorem dispatch_off_the_end_witness:
  "ended (handleRoutes example_compile (\<lambda>h ctx. True) example_router
            \<lparr>pathname = ''/'', hash = ''#/about''\<rparr>) = Thrown (NotAFunction 4)"
proof -
  let ?loc = "\<lparr>pathname = ''/'', hash = ''#/about''\<rparr>"
  have nonempty: "res_handlers (fst (find example_router (hash_url (hash ?loc)))) \<noteq> []"
    by (simp add: example_find_about)
  have none: "lastPath example_router = None"
    by (simp add: example_router_eq)
  have every: "every_handler_invokes_next example_compile (\<lambda>h ctx. True)
           \<lparr>params = res_params (fst (find example_router (hash_url (hash ?loc))))\<rparr>
           (res_handlers (fst (find example_router (hash_url (hash ?loc))))) (lastPath example_router)"
    by (simp add: example_find_about none example_compile_def literal_examples)
  show ?thesis
    using dispatch_off_the_end [OF nonempty every] by (simp add: example_find_about)
qed

section \<open>Properties of the registration\<close>

text \<open>
  \<^bold>\<open>C5.\<close> When the library rejects the template of a call of \<^verbatim>\<open>use\<close>, no route is
  added: the instance that \<^verbatim>\<open>use\<close> returns is the instance it was called on, the
  failure is one line on the console and nothing is thrown. So every later call of
  \<^verbatim>\<open>use\<close> and of \<^verbatim>\<open>find\<close> gives what it gives without the failed call.
\<close>

theorem use_invalid_template:
  assumes "pathToRegexp (if router_base this = ''/'' then path else router_base this @ path) = Inl err"
  shows "use pathToRegexp this path hs =
           (this, [''Route '' @ [CHR 0x27] @ path @ [CHR 0x27] @ '' is invalid.'']) \<and>
         use pathToRegexp (fst (use pathToRegexp this path hs)) path' hs' = use pathToRegexp this path' hs' \<and>
         find (fst (use pathToRegexp this path hs)) url = find this url"
  using assms by (simp add: use_def Let_def)

theorem use_invalid_template_witness:
  "use example_pathToRegexp (constructor ''/'') ''/('' [User (1::nat)] =
     (constructor ''/'', [''Route '' @ [CHR 0x27] @ ''/('' @ [CHR 0x27] @ '' is invalid.'']) \<and>
   res_handlers (fst (find
       (fst (use example_pathToRegexp (fst (use example_pathToRegexp (constructor ''/'') ''/('' [User (1::nat)]))
               ''/about'' [User 2]))
       ''/about'')) = [Guard ''/about'', User 2]"
proof -
  have rejected: "example_pathToRegexp
      (if router_base (constructor ''/'' :: nat router) = ''/'' then ''/('' else router_base (constructor ''/'' :: nat router) @ ''/('')
      = Inl (PathToRegexpError ''Unbalanced pattern at 1'')"
    by (simp add: constructor_def example_pathToRegexp_def)
  have accepted: "res_handlers (fst (find
       (fst (use example_pathToRegexp (constructor ''/'') ''/about'' [User (2::nat)])) ''/about''))
     = [Guard ''/about'', User 2]"
    by (simp add: use_def constructor_def example_pathToRegexp_def js_split_def Let_def
          find_result find_route_def test_def exec_examples literal_examples)
  note failed = use_invalid_template [where pathToRegexp = example_pathToRegexp
      and this = "constructor ''/'' :: nat router" and path = "''/(''"
      and err = "PathToRegexpError ''Unbalanced pattern at 1''" and hs = "[User 1]"
      and path' = "''/about''" and hs' = "[User 2]", OF rejected]
  have reported: "use example_pathToRegexp (constructor ''/'') ''/('' [User (1::nat)] =
     (constructor ''/'', [''Route '' @ [CHR 0x27] @ ''/('' @ [CHR 0x27] @ '' is invalid.''])"
    using failed by blast
  have after: "use example_pathToRegexp
        (fst (use example_pathToRegexp (constructor ''/'') ''/('' [User (1::nat)])) ''/about'' [User 2] =
      use example_pathToRegexp (constructor ''/'') ''/about'' [User 2]"
    using failed by blast
  show ?thesis
    using reported accepted by (simp only: after) simp
qed

text \<open>\<^verbatim>\<open>split\<close> never gives an empty array, so its element \<^verbatim>\<open>[0]\<close> exists.\<close>

lemma split_from_not_Nil: "split_from sep piece s \<noteq> []"
  by (induction s arbitrary: piece) simp_all

lemma js_split_not_Nil: "sep \<noteq> [] \<Longrightarrow> js_split sep s \<noteq> []"
  by (simp add: js_split_def split_from_not_Nil)

text \<open>
  Its first element is the text before the first occurrence of the separator, and the
  whole text when the separator does not occur.
\<close>

lemma split_from_hd:
  assumes "sep \<noteq> []"
  shows "\<exists>q. hd (split_from sep piece s) = piece @ q \<and>
           ((\<exists>r. s = q @ sep @ r \<and> (\<forall>p' r'. s = p' @ sep @ r' \<longrightarrow> length q \<le> length p'))
            \<or> (q = s \<and> (\<forall>p' r'. s \<noteq> p' @ sep @ r')))"
proof (induction s arbitrary: piece)
  case Nil
  show ?case using assms by simp
next
  case (Cons c cs)
  show ?case
  proof (cases "prefix sep (c # cs)")
    case True
    then obtain r where "c # cs = sep @ r" by (auto simp: prefix_def)
    then have "c # cs = [] @ sep @ r \<and> (\<forall>p' r'. c # cs = p' @ sep @ r' \<longrightarrow> length ([]::string) \<le> length p')"
      by simp
    moreover have "hd (split_from sep piece (c # cs)) = piece @ []"
      using True assms by simp
    ultimately show ?thesis by blast
  next
    case False
    have shift: "\<And>p' r'. c # cs = p' @ sep @ r' \<Longrightarrow> \<exists>p''. p' = c # p'' \<and> cs = p'' @ sep @ r'"
    proof -
      fix p' r' assume eq: "c # cs = p' @ sep @ r'"
      have "p' \<noteq> []"
      proof
        assume "p' = []"
        with eq have "prefix sep (c # cs)" by (simp add: prefix_def)
        with False show False by simp
      qed
      then obtain p'' where "p' = c # p''" using eq by (cases p') auto
      with eq show "\<exists>p''. p' = c # p'' \<and> cs = p'' @ sep @ r'" by simp
    qed
    obtain q where hdq: "hd (split_from sep (piece @ [c]) cs) = (piece @ [c]) @ q"
      and q: "(\<exists>r. cs = q @ sep @ r \<and> (\<forall>p' r'. cs = p' @ sep @ r' \<longrightarrow> length q \<le> length p'))
            \<or> (q = cs \<and> (\<forall>p' r'. cs \<noteq> p' @ sep @ r'))"
      using Cons.IH [of "piece @ [c]"] by blast
    have "hd (split_from sep piece (c # cs)) = piece @ (c # q)"
      using False hdq by simp
    moreover have "(\<exists>r. c # cs = (c # q) @ sep @ r \<and> (\<forall>p' r'. c # cs = p' @ sep @ r' \<longrightarrow> length (c # q) \<le> length p'))
            \<or> (c # q = c # cs \<and> (\<forall>p' r'. c # cs \<noteq> p' @ sep @ r'))"
      using q
    proof
      assume "\<exists>r. cs = q @ sep @ r \<and> (\<forall>p' r'. cs = p' @ sep @ r' \<longrightarrow> length q \<le> length p')"
      then obtain r where r: "cs = q @ sep @ r" and least: "\<forall>p' r'. cs = p' @ sep @ r' \<longrightarrow> length q \<le> length p'"
        by blast
      have "\<forall>p' r'. c # cs = p' @ sep @ r' \<longrightarrow> length (c # q) \<le> length p'"
      proof (intro allI impI)
        fix p' r' assume "c # cs = p' @ sep @ r'"
        then obtain p'' where "p' = c # p''" "cs = p'' @ sep @ r'" using shift by blast
        then show "length (c # q) \<le> length p'" using least by simp
      qed
      then show ?thesis using r by simp
    next
      assume none: "q = cs \<and> (\<forall>p' r'. cs \<noteq> p' @ sep @ r')"
      have "\<forall>p' r'. c # cs \<noteq> p' @ sep @ r'"
        using shift none by blast
      then show ?thesis using none by simp
    qed
    ultimately show ?thesis by blast
  qed
qed

text \<open>
  \<^bold>\<open>C8.\<close> \<^verbatim>\<open>use\<close> gives the library the template \<open>fullPath\<close>, which is the path when
  the base of the router is \<^verbatim>\<open>"/"\<close> and the base followed by the path otherwise. The route
  it stores has for base the text of \<open>fullPath\<close> before the first \<^verbatim>\<open>(.*)\<close>, and
  \<open>fullPath\<close> itself when there is no \<^verbatim>\<open>(.*)\<close> in it.
\<close>

theorem use_full_path_and_base:
  assumes "fullPath = (if router_base this = ''/'' then path else router_base this @ path)"
    and "pathToRegexp fullPath = Inr (re, ks)"
  shows "\<exists>b. use pathToRegexp this path hs =
               (this\<lparr>routes := routes this @ [\<lparr>keys = ks, pattern = re, handlers = hs, base = b\<rparr>]\<rparr>, []) \<and>
             ((\<exists>rest. fullPath = b @ ''(.*)'' @ rest \<and>
                 (\<forall>p r. fullPath = p @ ''(.*)'' @ r \<longrightarrow> length b \<le> length p))
              \<or> (b = fullPath \<and> (\<forall>p r. fullPath \<noteq> p @ ''(.*)'' @ r)))"
proof -
  have "''(.*)'' \<noteq> []" by simp
  from split_from_hd [OF this, of "[]" fullPath]
  obtain q where "hd (split_from ''(.*)'' [] fullPath) = q"
    and "(\<exists>rest. fullPath = q @ ''(.*)'' @ rest \<and>
            (\<forall>p r. fullPath = p @ ''(.*)'' @ r \<longrightarrow> length q \<le> length p))
         \<or> (q = fullPath \<and> (\<forall>p r. fullPath \<noteq> p @ ''(.*)'' @ r))"
    by auto
  moreover have "use pathToRegexp this path hs =
      (this\<lparr>routes := routes this @
          [\<lparr>keys = ks, pattern = re, handlers = hs, base = hd (split_from ''(.*)'' [] fullPath)\<rparr>]\<rparr>, [])"
    using assms by (simp add: use_def js_split_def Let_def)
  ultimately show ?thesis by auto
qed

theorem use_full_path_and_base_witness:
  "(\<exists>b. use example_pathToRegexp (set_base (constructor ''/'') ''/api'') ''/files/(.*)'' [User (1::nat)] =
         ((set_base (constructor ''/'') ''/api'')
            \<lparr>routes := routes (set_base (constructor ''/'') ''/api'') @
               [\<lparr>keys = [\<lparr>name = ''0''\<rparr>],
                 pattern = rest_regexp ''/api/files'',
                 handlers = [User 1], base = b\<rparr>]\<rparr>, []) \<and>
        ((\<exists>rest. ''/api/files/(.*)'' = b @ ''(.*)'' @ rest \<and>
            (\<forall>p r. ''/api/files/(.*)'' = p @ ''(.*)'' @ r \<longrightarrow> length b \<le> length p))
         \<or> (b = ''/api/files/(.*)'' \<and> (\<forall>p r. ''/api/files/(.*)'' \<noteq> p @ ''(.*)'' @ r)))) \<and>
   base (last (routes (fst (use example_pathToRegexp (set_base (constructor ''/'') ''/api'') ''/files/(.*)''
                              [User (1::nat)])))) = ''/api/files/''"
proof -
  have full: "''/api/files/(.*)'' =
      (if router_base (set_base (constructor ''/'') ''/api'' :: nat router) = ''/'' then ''/files/(.*)''
       else router_base (set_base (constructor ''/'') ''/api'' :: nat router) @ ''/files/(.*)'')"
    by (simp add: set_base_def constructor_def)
  have accepted: "example_pathToRegexp ''/api/files/(.*)'' =
      Inr (rest_regexp ''/api/files'', [\<lparr>name = ''0''\<rparr>])"
    by (simp add: example_pathToRegexp_def)
  have stored: "base (last (routes (fst (use example_pathToRegexp (set_base (constructor ''/'') ''/api'')
      ''/files/(.*)'' [User (1::nat)])))) = ''/api/files/''"
    by (simp add: use_def set_base_def constructor_def example_pathToRegexp_def js_split_def Let_def)
  note registered = use_full_path_and_base [where pathToRegexp = example_pathToRegexp
      and this = "set_base (constructor ''/'') ''/api'' :: nat router" and path = "''/files/(.*)''"
      and fullPath = "''/api/files/(.*)''" and hs = "[User 1]", OF full accepted]
  show ?thesis
    using registered stored by (rule conjI)
qed

section \<open>Properties of the dispatch\<close>

lemma js_replace_first:
  assumes "pat \<noteq> []" "s = p @ pat @ r" "\<forall>p' r'. s = p' @ pat @ r' \<longrightarrow> length p \<le> length p'"
  shows "js_replace pat rep s = p @ rep @ r"
  using assms
proof (induction s arbitrary: p)
  case Nil
  then show ?case by simp
next
  case (Cons c cs)
  show ?case
  proof (cases "prefix pat (c # cs)")
    case True
    then obtain r0 where r0: "c # cs = [] @ pat @ r0" by (auto simp: prefix_def)
    then have "length p \<le> length ([]::string)" using Cons.prems(3) by blast
    then have "p = []" by simp
    with Cons.prems(2) have eq: "c # cs = pat @ r" by simp
    have "drop (length pat) (c # cs) = r"
      unfolding eq by simp
    moreover have "js_replace pat rep (c # cs) = rep @ drop (length pat) (c # cs)"
      using True by simp
    ultimately show ?thesis using \<open>p = []\<close> by simp
  next
    case False
    have "p \<noteq> []"
    proof
      assume "p = []"
      with Cons.prems(2) have "prefix pat (c # cs)" by (simp add: prefix_def)
      with False show False by simp
    qed
    then obtain p0 where p0: "p = c # p0" "cs = p0 @ pat @ r"
      using Cons.prems(2) by (cases p) auto
    have "\<forall>p' r'. cs = p' @ pat @ r' \<longrightarrow> length p0 \<le> length p'"
    proof (intro allI impI)
      fix p' r' assume "cs = p' @ pat @ r'"
      then have "c # cs = (c # p') @ pat @ r'" by simp
      then have "length p \<le> length (c # p')" using Cons.prems(3) by blast
      then show "length p0 \<le> length p'" using p0 by simp
    qed
    then have "js_replace pat rep cs = p0 @ rep @ r"
      using Cons.IH [OF Cons.prems(1) p0(2)] by simp
    then show ?thesis using False p0 by simp
  qed
qed

lemma js_replace_none:
  assumes "\<forall>p' r'. s \<noteq> p' @ pat @ r'"
  shows "js_replace pat rep s = s"
  using assms
proof (induction s)
  case Nil
  then have "pat \<noteq> []" by auto
  then show ?case by simp
next
  case (Cons c cs)
  have np: "\<not> prefix pat (c # cs)"
  proof
    assume "prefix pat (c # cs)"
    then obtain r where "c # cs = [] @ pat @ r" by (auto simp: prefix_def)
    with Cons.prems show False by blast
  qed
  have "\<forall>p' r'. cs \<noteq> p' @ pat @ r'"
  proof (intro allI notI)
    fix p' r' assume "cs = p' @ pat @ r'"
    then have "c # cs = (c # p') @ pat @ r'" by simp
    with Cons.prems show False by blast
  qed
  then show ?case using Cons.IH np by simp
qed

text \<open>
  \<^bold>\<open>C7.\<close> The url that \<^verbatim>\<open>handleRoutes\<close> gives to \<^verbatim>\<open>find\<close> is \<open>hash_url\<close> of the hash.
  It is not, for every hash, the hash without its leading \<^verbatim>\<open>#\<close>: \<^verbatim>\<open>#about\<close> is passed as
  it is, and in \<^verbatim>\<open>#a#/b\<close> the second \<^verbatim>\<open>#\<close> is removed, which gives a text that is no end
  part of the hash.
\<close>

theorem hash_url_not_stripped:
  "hash_url ''#about'' \<noteq> spec_hash_url ''#about'' \<and>
   hash_url ''#about'' = ''#about'' \<and> spec_hash_url ''#about'' = ''about'' \<and>
   hash_url ''#a#/b'' = ''#a/b'' \<and> \<not> suffix (hash_url ''#a#/b'') ''#a#/b''"
  by (simp add: hash_url_def spec_hash_url_def suffix_to_prefix)

text \<open>
  What holds for every hash: the first occurrence of \<^verbatim>\<open>#/\<close> is replaced by \<^verbatim>\<open>/\<close>, so a
  hash that starts with \<^verbatim>\<open>#/\<close> loses its \<^verbatim>\<open>#\<close>; a hash without \<^verbatim>\<open>#/\<close> is passed as it
  is; and the empty hash gives the root path.
\<close>

theorem hash_url_first_occurrence:
  "hash_url [] = ''/'' \<and>
   hash_url (''#/'' @ rest) = ''/'' @ rest \<and>
   (h = p @ ''#/'' @ r \<and> (\<forall>p' r'. h = p' @ ''#/'' @ r' \<longrightarrow> length p \<le> length p')
      \<longrightarrow> hash_url h = p @ ''/'' @ r) \<and>
   (h \<noteq> [] \<and> (\<forall>p' r'. h \<noteq> p' @ ''#/'' @ r') \<longrightarrow> hash_url h = h)"
proof (intro conjI impI)
  show "hash_url [] = ''/''"
    by (simp add: hash_url_def)
  show "hash_url (''#/'' @ rest) = ''/'' @ rest"
    by (simp add: hash_url_def)
  show "hash_url h = p @ ''/'' @ r"
    if "h = p @ ''#/'' @ r \<and> (\<forall>p' r'. h = p' @ ''#/'' @ r' \<longrightarrow> length p \<le> length p')"
  proof -
    have "js_replace ''#/'' ''/'' h = p @ ''/'' @ r"
      using that by (intro js_replace_first) simp_all
    then show ?thesis
      by (simp add: hash_url_def)
  qed
  show "hash_url h = h" if "h \<noteq> [] \<and> (\<forall>p' r'. h \<noteq> p' @ ''#/'' @ r')"
  proof -
    have "js_replace ''#/'' ''/'' h = h"
      using that by (intro js_replace_none) simp
    then show ?thesis
      using that by (simp add: hash_url_def)
  qed
qed

theorem hash_url_first_occurrence_witness:
  "hash_url [] = ''/'' \<and> hash_url ''#/about'' = ''/about'' \<and>
   hash_url ''#a#/b'' = ''#a/b'' \<and> hash_url ''#a'' = ''#a''"
proof -
  have least: "length ''#a'' \<le> length q" if eq: "''#a#/b'' = q @ ''#/'' @ t" for q t :: string
  proof (cases q)
    case Nil
    with eq show ?thesis by simp
  next
    case outer: (Cons c q1)
    show ?thesis
    proof (cases q1)
      case Nil
      with outer eq show ?thesis by simp
    next
      case (Cons d q2)
      with outer show ?thesis by simp
    qed
  qed
  have first: "''#a#/b'' = ''#a'' @ ''#/'' @ ''b'' \<and>
      (\<forall>p' r'. ''#a#/b'' = p' @ ''#/'' @ r' \<longrightarrow> length ''#a'' \<le> length p')"
    using least by simp
  have absent: "''#a'' \<noteq> q @ ''#/'' @ t" for q t :: string
  proof
    assume eq: "''#a'' = q @ ''#/'' @ t"
    have "length (q @ ''#/'' @ t) = length q + 2 + length t"
      by simp
    with eq have "length ''#a'' = length q + 2 + length t"
      by metis
    then have "q = []" and "t = []"
      by simp_all
    with eq show False by simp
  qed
  have none: "''#a'' \<noteq> [] \<and> (\<forall>p' r'. ''#a'' \<noteq> p' @ ''#/'' @ r')"
    using absent by simp
  note replaced = hash_url_first_occurrence [of "''about''" "''#a#/b''" "''#a''" "''b''"]
  note kept = hash_url_first_occurrence [of "''about''" "''#a''" "[]" "[]"]
  have root: "hash_url [] = ''/''"
    using replaced by blast
  have stripped: "hash_url (''#/'' @ ''about'') = ''/'' @ ''about''"
    using replaced by blast
  have inner: "hash_url ''#a#/b'' = ''#a'' @ ''/'' @ ''b''"
    using replaced first by blast
  have same: "hash_url ''#a'' = ''#a''"
    using kept none by blast
  show ?thesis
    using root stripped inner same by simp
qed

end
